theory Spec2Isabelle
  imports Main "HOL-Library.Word"
begin

unbundle bit_operations_syntax

section \<open>Data model\<close>

text \<open>
  The bit-level I/O engine of \<^verbatim>\<open>src/Lib/TLibCommon/TComBitStream.cpp\<close>. The data values
  of the source keep their machine widths: \<^verbatim>\<open>UInt\<close>/\<^verbatim>\<open>unsigned\<close> data words are
  \<open>32 word\<close>, \<^verbatim>\<open>uint8_t\<close>/\<^verbatim>\<open>unsigned char\<close> are \<open>8 word\<close>, and every conversion
  between them is an explicit \<open>ucast\<close>. Bit counts, byte counts and indices are \<open>nat\<close>:
  the asserts of the source bound every width by 32 and the held-bit count stays below 8;
  the one subtraction of the source that is not guarded by a comparison
  (\<^verbatim>\<open>uiNumberOfBits - next_num_held_bits\<close> in \<^verbatim>\<open>write\<close>) is computed in \<open>32 word\<close>, where it
  wraps as in the source. A failed \<^verbatim>\<open>assert\<close> and an access outside a vector are results
  of type \<open>error\<close>.
\<close>

type_synonym uint8_t = "8 word"
type_synonym UInt = "32 word"

datatype error =
    AssertNumberOfBits    \<comment> \<open>\<^verbatim>\<open>assert( uiNumberOfBits <= 32 )\<close>\<close>
  | AssertFifoBounds      \<comment> \<open>\<^verbatim>\<open>assert(m_fifo_idx + num_bytes_to_load < m_fifo->size())\<close>\<close>
  | AssertByteAligned     \<comment> \<open>\<^verbatim>\<open>assert(0 == src_bits % 8)\<close>\<close>
  | IteratorOutOfRange    \<comment> \<open>\<^verbatim>\<open>m_fifo->begin() + pos\<close> beyond \<^verbatim>\<open>end()\<close>\<close>

text \<open>
  The class declarations (\<^verbatim>\<open>TComBitStream.h\<close>) are not among the sources. The fields are
  the ones the member functions use; \<^verbatim>\<open>m_held_bits\<close> is a byte (\<^verbatim>\<open>pseudoRead\<close> saves it in
  an \<^verbatim>\<open>unsigned char\<close>, \<^verbatim>\<open>write\<close> assigns it from one). The fields of the reader carry
  the suffix \<open>_in\<close> where the writer has a field of the same name.
\<close>

record TComOutputBitstream =
  m_fifo :: "uint8_t list"
  m_num_held_bits :: nat
  m_held_bits :: uint8_t

record TComInputBitstream =
  m_fifo_in :: "uint8_t list"
  m_fifo_idx :: nat
  m_num_held_bits_in :: nat
  m_held_bits_in :: uint8_t

section \<open>TComOutputBitstream\<close>

definition push_back :: "'a list \<Rightarrow> 'a \<Rightarrow> 'a list" where
  "push_back v x = v @ [x]"

definition clear :: "TComOutputBitstream \<Rightarrow> TComOutputBitstream" where
  "clear s = s\<lparr>m_fifo := [], m_held_bits := 0, m_num_held_bits := 0\<rparr>"

text \<open>The constructor: a fresh vector, then \<^verbatim>\<open>clear()\<close>.\<close>

definition new_TComOutputBitstream :: TComOutputBitstream where
  "new_TComOutputBitstream = clear \<lparr>m_fifo = [], m_num_held_bits = 0, m_held_bits = 0\<rparr>"

definition getByteStream :: "TComOutputBitstream \<Rightarrow> uint8_t list" where
  "getByteStream s = m_fifo s"

text \<open>
  \<^verbatim>\<open>getByteStreamLength\<close> returns \<^verbatim>\<open>unsigned(m_fifo->size())\<close>: the size of the vector cut
  to the 32 bits of \<^verbatim>\<open>unsigned int\<close>.
\<close>

definition getByteStreamLength :: "TComOutputBitstream \<Rightarrow> nat" where
  "getByteStreamLength s = length (m_fifo s) mod 2 ^ 32"

text \<open>
  Modelled from the spec: \<^verbatim>\<open>getNumBitsUntilByteAligned\<close> is declared in the missing
  header; the spec calls it ``the number of bits needed to reach alignment''.
\<close>

definition getNumBitsUntilByteAligned :: "TComOutputBitstream \<Rightarrow> nat" where
  "getNumBitsUntilByteAligned s = (8 - m_num_held_bits s) mod 8"

text \<open>
  Modelled from the spec: \<^verbatim>\<open>getNumberOfWrittenBits\<close> is declared in the missing header;
  the spec calls it the ``written bit count'', eight bits for each flushed byte plus the
  held bits.
\<close>

definition getNumberOfWrittenBits :: "TComOutputBitstream \<Rightarrow> nat" where
  "getNumberOfWrittenBits s = 8 * length (m_fifo s) + m_num_held_bits s"

text \<open>
  The \<^verbatim>\<open>switch (num_total_bits >> 3)\<close> of \<^verbatim>\<open>write\<close>: the cases 4, 3, 2, 1 fall through, any
  other value matches no case.
\<close>

definition write_switch :: "nat \<Rightarrow> UInt \<Rightarrow> uint8_t list \<Rightarrow> uint8_t list" where
  "write_switch c write_bits fifo =
    (let fifo = (if c = 4 then push_back fifo (ucast (drop_bit 24 write_bits)) else fifo);
         fifo = (if c = 4 \<or> c = 3 then push_back fifo (ucast (drop_bit 16 write_bits)) else fifo);
         fifo = (if c = 4 \<or> c = 3 \<or> c = 2 then push_back fifo (ucast (drop_bit 8 write_bits)) else fifo);
         fifo = (if c = 4 \<or> c = 3 \<or> c = 2 \<or> c = 1 then push_back fifo (ucast write_bits) else fifo)
     in fifo)"

text \<open>
  \<^verbatim>\<open>TComOutputBitstream::write\<close>; the name \<open>write\<close> is reserved in Isabelle. The value
  \<^verbatim>\<open>next_held_bits\<close> is an \<^verbatim>\<open>unsigned char\<close>: the shifted word is cut to its low byte.
  \<^verbatim>\<open>m_held_bits << topword\<close> is computed in 32 bits; \<^verbatim>\<open>topword\<close> is 32 only for a 32-bit
  write with no held bits, where the source shifts by the full width of the type and
  the model yields 0 (the held byte is 0 there in every state the member functions
  produce).
\<close>

definition write_out :: "UInt \<Rightarrow> nat \<Rightarrow> TComOutputBitstream \<Rightarrow> error + TComOutputBitstream" where
  "write_out uiBits uiNumberOfBits s =
    (if \<not> uiNumberOfBits \<le> 32 then Inl AssertNumberOfBits
     else
       let num_total_bits = uiNumberOfBits + m_num_held_bits s;
           next_num_held_bits = num_total_bits mod 8;
           next_held_bits = (ucast (push_bit (8 - next_num_held_bits) uiBits) :: uint8_t)
       in
         if drop_bit 3 num_total_bits = 0
         then Inr (s\<lparr>m_held_bits := m_held_bits s OR next_held_bits,
                     m_num_held_bits := next_num_held_bits\<rparr>)
         else
           let topword = unat ((of_nat uiNumberOfBits - of_nat next_num_held_bits :: UInt)
                                 AND NOT (push_bit 3 1 - 1));
               write_bits = push_bit topword (ucast (m_held_bits s) :: UInt)
                              OR drop_bit next_num_held_bits uiBits
           in Inr (s\<lparr>m_fifo := write_switch (drop_bit 3 num_total_bits) write_bits (m_fifo s),
                      m_held_bits := next_held_bits,
                      m_num_held_bits := next_num_held_bits\<rparr>))"

definition writeAlignOne :: "TComOutputBitstream \<Rightarrow> error + TComOutputBitstream" where
  "writeAlignOne s =
    (let num_bits = getNumBitsUntilByteAligned s
     in write_out (push_bit num_bits 1 - 1) num_bits s)"

definition writeAlignZero :: "TComOutputBitstream \<Rightarrow> TComOutputBitstream" where
  "writeAlignZero s =
    (if 0 = m_num_held_bits s then s
     else s\<lparr>m_fifo := push_back (m_fifo s) (m_held_bits s),
            m_held_bits := 0,
            m_num_held_bits := 0\<rparr>)"

text \<open>
  \<^verbatim>\<open>std::vector::insert(at, first, last)\<close> with \<^verbatim>\<open>at = begin() + pos\<close>: the elements before
  the iterator stay, the range is copied in, the rest follows. The last equation is the
  iterator past the end, which \<^verbatim>\<open>insertAt\<close> below never reaches.
\<close>

fun vector_insert :: "'a list \<Rightarrow> nat \<Rightarrow> 'a list \<Rightarrow> 'a list" where
  "vector_insert v 0 xs = xs @ v"
| "vector_insert (a # v) (Suc pos) xs = a # vector_insert v pos xs"
| "vector_insert [] (Suc pos) xs = xs"

text \<open>
  \<^verbatim>\<open>insertAt\<close> returns both objects, \<^verbatim>\<open>this\<close> and \<^verbatim>\<open>src\<close>, as they are after the call.
\<close>

definition insertAt ::
  "TComOutputBitstream \<Rightarrow> TComOutputBitstream \<Rightarrow> nat
     \<Rightarrow> error + (TComOutputBitstream \<times> TComOutputBitstream)" where
  "insertAt this src pos =
    (let src_bits = getNumberOfWrittenBits src
     in if \<not> (0 = src_bits mod 8) then Inl AssertByteAligned
        else if length (m_fifo this) < pos then Inl IteratorOutOfRange
        else Inr (this\<lparr>m_fifo := vector_insert (m_fifo this) pos (m_fifo src)\<rparr>, src))"

section \<open>TComInputBitstream\<close>

definition new_TComInputBitstream :: "uint8_t list \<Rightarrow> TComInputBitstream" where
  "new_TComInputBitstream buf =
    \<lparr>m_fifo_in = buf, m_fifo_idx = 0, m_num_held_bits_in = 0, m_held_bits_in = 0\<rparr>"

text \<open>
  Modelled from the spec: \<^verbatim>\<open>getNumBitsLeft\<close> is declared in the missing header; the spec
  calls it the bits remaining in the buffer, the held bits plus eight for each byte at
  or after the cursor.
\<close>

definition getNumBitsLeft :: "TComInputBitstream \<Rightarrow> nat" where
  "getNumBitsLeft s = 8 * (length (m_fifo_in s) - m_fifo_idx s) + m_num_held_bits_in s"

text \<open>
  The \<^verbatim>\<open>switch (num_bytes_to_load)\<close> of \<^verbatim>\<open>read\<close> works on the aligned word and the cursor;
  the third component records the indices of \<^verbatim>\<open>m_fifo\<close> it accessed, in order. Case 3
  assigns, the cases 2, 1, 0 accumulate with \<^verbatim>\<open>|=\<close>, all fall through.
\<close>

type_synonym load_state = "UInt \<times> nat \<times> nat list"

definition load_assign :: "uint8_t list \<Rightarrow> nat \<Rightarrow> load_state \<Rightarrow> load_state" where
  "load_assign fifo sh st =
    (case st of (aligned_word, idx, acc) \<Rightarrow>
       (push_bit sh (ucast (fifo ! idx)), Suc idx, acc @ [idx]))"

definition load_or :: "uint8_t list \<Rightarrow> nat \<Rightarrow> load_state \<Rightarrow> load_state" where
  "load_or fifo sh st =
    (case st of (aligned_word, idx, acc) \<Rightarrow>
       (aligned_word OR push_bit sh (ucast (fifo ! idx)), Suc idx, acc @ [idx]))"

definition read_switch :: "nat \<Rightarrow> uint8_t list \<Rightarrow> nat \<Rightarrow> load_state" where
  "read_switch c fifo idx =
    (let st = (0, idx, []);
         st = (if c = 3 then load_assign fifo 24 st else st);
         st = (if c = 3 \<or> c = 2 then load_or fifo 16 st else st);
         st = (if c = 3 \<or> c = 2 \<or> c = 1 then load_or fifo 8 st else st);
         st = (if c = 3 \<or> c = 2 \<or> c = 1 \<or> c = 0 then load_or fifo 0 st else st)
     in st)"

text \<open>
  \<^verbatim>\<open>TComInputBitstream::read\<close> returns the value of \<^verbatim>\<open>ruiBits\<close> and the reader after the
  call. \<^verbatim>\<open>retval <<= uiNumberOfBits\<close> shifts by 32 only for a 32-bit read with no held
  bits, where \<^verbatim>\<open>retval\<close> is 0.
\<close>

definition read :: "nat \<Rightarrow> TComInputBitstream \<Rightarrow> error + (UInt \<times> TComInputBitstream)" where
  "read uiNumberOfBits s =
    (if \<not> uiNumberOfBits \<le> 32 then Inl AssertNumberOfBits
     else if uiNumberOfBits \<le> m_num_held_bits_in s
     then
       let retval = drop_bit (m_num_held_bits_in s - uiNumberOfBits) (ucast (m_held_bits_in s) :: UInt);
           retval = retval AND NOT (push_bit uiNumberOfBits 0xff)
       in Inr (retval, s\<lparr>m_num_held_bits_in := m_num_held_bits_in s - uiNumberOfBits\<rparr>)
     else
       let uiNumberOfBits = uiNumberOfBits - m_num_held_bits_in s;
           retval = (ucast (m_held_bits_in s) :: UInt) AND NOT (push_bit (m_num_held_bits_in s) 0xff);
           retval = push_bit uiNumberOfBits retval;
           num_bytes_to_load = drop_bit 3 (uiNumberOfBits - 1)
       in
         if \<not> m_fifo_idx s + num_bytes_to_load < length (m_fifo_in s) then Inl AssertFifoBounds
         else
           case read_switch num_bytes_to_load (m_fifo_in s) (m_fifo_idx s) of
             (aligned_word, idx, acc) \<Rightarrow>
               let next_num_held_bits = (32 - uiNumberOfBits) mod 8;
                   retval = retval OR drop_bit next_num_held_bits aligned_word
               in Inr (retval, s\<lparr>m_fifo_idx := idx,
                                  m_num_held_bits_in := next_num_held_bits,
                                  m_held_bits_in := ucast aligned_word\<rparr>))"

text \<open>The indices of \<^verbatim>\<open>m_fifo\<close> that \<^verbatim>\<open>read\<close> accesses, in order, as its switch records them.\<close>

definition read_accesses :: "nat \<Rightarrow> TComInputBitstream \<Rightarrow> nat list" where
  "read_accesses uiNumberOfBits s =
    (if \<not> uiNumberOfBits \<le> 32 \<or> uiNumberOfBits \<le> m_num_held_bits_in s then []
     else
       let uiNumberOfBits = uiNumberOfBits - m_num_held_bits_in s;
           num_bytes_to_load = drop_bit 3 (uiNumberOfBits - 1)
       in case read_switch num_bytes_to_load (m_fifo_in s) (m_fifo_idx s) of
            (aligned_word, idx, acc) \<Rightarrow> acc)"

text \<open>
  \<^verbatim>\<open>TComInputBitstream::pseudoRead\<close> (compiled under \<^verbatim>\<open>LCEC_INTRA_MODE || QC_LCEC_INTER_MODE\<close>):
  the three fields are saved, the bounded \<^verbatim>\<open>read\<close> runs, the result is shifted up by the
  shortfall, and the three fields are restored.
\<close>

definition pseudoRead :: "nat \<Rightarrow> TComInputBitstream \<Rightarrow> error + (UInt \<times> TComInputBitstream)" where
  "pseudoRead uiNumberOfBits s =
    (let saved_num_held_bits = m_num_held_bits_in s;
         saved_held_bits = m_held_bits_in s;
         saved_fifo_idx = m_fifo_idx s;
         num_bits_to_read = min uiNumberOfBits (getNumBitsLeft s)
     in case read num_bits_to_read s of
          Inl e \<Rightarrow> Inl e
        | Inr (ruiBits, s') \<Rightarrow>
            Inr (push_bit (uiNumberOfBits - num_bits_to_read) ruiBits,
                 s'\<lparr>m_fifo_idx := saved_fifo_idx,
                    m_held_bits_in := saved_held_bits,
                    m_num_held_bits_in := saved_num_held_bits\<rparr>))"

section \<open>Sequences of calls\<close>

text \<open>A caller's sequence of writer calls, run in order; the first failed assert ends the run.\<close>

datatype writer_call = CallWrite UInt nat | CallWriteAlignZero | CallWriteAlignOne

fun do_call :: "writer_call \<Rightarrow> TComOutputBitstream \<Rightarrow> error + TComOutputBitstream" where
  "do_call (CallWrite uiBits uiNumberOfBits) s = write_out uiBits uiNumberOfBits s"
| "do_call CallWriteAlignZero s = Inr (writeAlignZero s)"
| "do_call CallWriteAlignOne s = writeAlignOne s"

fun do_calls :: "writer_call list \<Rightarrow> TComOutputBitstream \<Rightarrow> error + TComOutputBitstream" where
  "do_calls [] s = Inr s"
| "do_calls (c # cs) s = (case do_call c s of Inl e \<Rightarrow> Inl e | Inr s' \<Rightarrow> do_calls cs s')"

text \<open>The caller contract of a call: a width of at most 32 and a value confined to it.\<close>

fun call_ok :: "writer_call \<Rightarrow> bool" where
  "call_ok (CallWrite uiBits uiNumberOfBits) \<longleftrightarrow>
     uiNumberOfBits \<le> 32 \<and> unat uiBits < 2 ^ uiNumberOfBits"
| "call_ok CallWriteAlignZero \<longleftrightarrow> True"
| "call_ok CallWriteAlignOne \<longleftrightarrow> True"

fun is_align :: "writer_call \<Rightarrow> bool" where
  "is_align (CallWrite uiBits uiNumberOfBits) \<longleftrightarrow> False"
| "is_align CallWriteAlignZero \<longleftrightarrow> True"
| "is_align CallWriteAlignOne \<longleftrightarrow> True"



section \<open>Specification-level notions\<close>

text \<open>
  The bit count of a sequence of calls, following the words of the specification and
  not the code: a write counts its width, an align operation counts the padding that
  takes the count so far to the next multiple of 8.
\<close>

definition padding_bits :: "nat \<Rightarrow> nat" where
  "padding_bits cnt = (8 - cnt mod 8) mod 8"

fun bits_written :: "writer_call list \<Rightarrow> nat \<Rightarrow> nat" where
  "bits_written [] cnt = cnt"
| "bits_written (CallWrite uiBits uiNumberOfBits # cs) cnt = bits_written cs (cnt + uiNumberOfBits)"
| "bits_written (CallWriteAlignZero # cs) cnt = bits_written cs (cnt + padding_bits cnt)"
| "bits_written (CallWriteAlignOne # cs) cnt = bits_written cs (cnt + padding_bits cnt)"

text \<open>A byte sequence read as one big-endian number.\<close>

definition be_val :: "uint8_t list \<Rightarrow> nat" where
  "be_val bs = foldl (\<lambda>a b. a * 256 + unat b) 0 bs"








section \<open>Arithmetic of words and bytes\<close>

text \<open>
  The word operations of the source read as arithmetic on \<open>nat\<close>: a shift is a
  multiplication or a division by a power of two, a narrowing cast is a remainder, and
  \<open>OR\<close> of two values with no common bit is their sum.
\<close>

lemma be_val_Nil: "be_val [] = 0" by (simp add: be_val_def)
lemma be_val_snoc: "be_val (bs @ [b]) = be_val bs * 256 + unat b" by (simp add: be_val_def)

lemma unat_byte_lt: "unat (b :: 8 word) < 256"
proof -
  have "unat b < 2 ^ LENGTH(8)" by (rule unsigned_less)
  then show ?thesis by simp
qed

lemma be_val_append: "be_val (xs @ ys) = be_val xs * 2 ^ (8 * length ys) + be_val ys"
proof (induction ys rule: rev_induct)
  case Nil
  then show ?case by (simp add: be_val_Nil)
next
  case (snoc y ys)
  have "be_val (xs @ ys @ [y]) = be_val ((xs @ ys) @ [y])" by simp
  also have "\<dots> = be_val (xs @ ys) * 256 + unat y" by (rule be_val_snoc)
  finally show ?case using snoc by (simp add: be_val_snoc algebra_simps power_add)
qed

lemma be_val_lt: "be_val bs < 2 ^ (8 * length bs)"
proof (induction bs rule: rev_induct)
  case Nil
  then show ?case by (simp add: be_val_Nil)
next
  case (snoc b bs)
  have "unat b < 256" by (rule unat_byte_lt)
  moreover have "Suc (be_val bs) * 256 \<le> 2 ^ (8 * length bs) * 256"
    using snoc by (simp only: mult_le_mono1 Suc_leI)
  ultimately show ?case by (simp add: be_val_snoc power_add)
qed

lemma or_add_nat: "b < 2 ^ m \<Longrightarrow> (a * 2 ^ m) OR b = a * 2 ^ m + (b::nat)"
proof -
  assume b: "b < 2 ^ m"
  have "\<not> bit (a * 2 ^ m) i \<or> \<not> bit b i" for i
  proof (cases "i < m")
    case True
    then show ?thesis by (simp add: bit_push_bit_iff flip: push_bit_eq_mult) 
  next
    case False
    then have "(2::nat) ^ m \<le> 2 ^ i" by (simp add: power_increasing)
    then have "b < 2 ^ i" using b by (rule less_le_trans [rotated])
    then show ?thesis by (simp add: bit_iff_odd)
  qed
  then show ?thesis by (simp add: disjunctive_add)
qed

lemma unat_ucast_8_32: "unat (ucast (x :: 8 word) :: 32 word) = unat x"
  using unat_byte_lt [of x] by (simp add: unsigned_ucast_eq take_bit_nat_eq_self_iff) 





lemma be_val_Cons: "be_val (b # bs) = unat b * 2 ^ (8 * length bs) + be_val bs"
  using be_val_append [of "[b]" bs] be_val_snoc [of "[]" b] by (simp add: be_val_Nil)

lemma unat_drop_bit_div: "unat (drop_bit k (w::32 word)) = unat w div 2 ^ k"
  by (subst unat_drop_bit_eq) (simp add: drop_bit_eq_div)

lemma length_write_switch: "c \<le> 4 \<Longrightarrow> length (write_switch c wb fifo) = length fifo + c"
  by (auto simp: write_switch_def push_back_def Let_def)






section \<open>The writer\<close>

text \<open>
  \<^verbatim>\<open>write\<close> appends the field to the bits written so far: it keeps the invariant, adds
  the width to the bit count and takes \<open>out_val s\<close> to \<open>out_val s * 2 ^ n + unat v\<close>. The two
  cases are the ones of the source: fewer than 8 bits in total (only the held byte
  changes) and at least one full byte.
\<close>

lemma write_out_count:
  assumes "m_num_held_bits s \<le> 7" "n \<le> 32"
  shows "\<exists>s'. write_out v n s = Inr s' \<and> m_num_held_bits s' = (n + m_num_held_bits s) mod 8
            \<and> length (m_fifo s') = length (m_fifo s) + (n + m_num_held_bits s) div 8"
proof -
  have "(n + m_num_held_bits s) div 8 \<le> 4" using assms by simp
  then show ?thesis using assms(2)
    by (simp add: write_out_def Let_def drop_bit_eq_div length_write_switch)
qed




lemma writeAlignZero_count:
  "m_num_held_bits s \<le> 7 \<Longrightarrow>
     m_num_held_bits (writeAlignZero s) = 0 \<and>
     8 * length (m_fifo (writeAlignZero s)) =
       getNumberOfWrittenBits s + padding_bits (getNumberOfWrittenBits s)"
  by (auto simp: writeAlignZero_def push_back_def getNumberOfWrittenBits_def padding_bits_def)

lemma writeAlignOne_count:
  assumes "m_num_held_bits s \<le> 7"
  shows "\<exists>s'. writeAlignOne s = Inr s' \<and> m_num_held_bits s' = 0 \<and>
     8 * length (m_fifo s') = getNumberOfWrittenBits s + padding_bits (getNumberOfWrittenBits s)"
proof -
  define nb where "nb = getNumBitsUntilByteAligned s"
  have nb: "nb = (8 - m_num_held_bits s) mod 8" by (simp add: nb_def getNumBitsUntilByteAligned_def)
  then have "nb \<le> 32" using assms by simp
  from write_out_count [OF assms this, of "push_bit nb 1 - 1"]
  obtain s' where s': "write_out (push_bit nb 1 - 1) nb s = Inr s'"
    "m_num_held_bits s' = (nb + m_num_held_bits s) mod 8"
    "length (m_fifo s') = length (m_fifo s) + (nb + m_num_held_bits s) div 8" by blast
  have sum: "nb + m_num_held_bits s = (if m_num_held_bits s = 0 then 0 else 8)"
    using assms nb by (cases "m_num_held_bits s = 0") simp_all
  have "writeAlignOne s = Inr s'" using s'(1) by (simp add: writeAlignOne_def nb_def)
  moreover have "m_num_held_bits s' = 0" using s'(2) sum by (simp split: if_splits)
  moreover have "8 * length (m_fifo s') = getNumberOfWrittenBits s + padding_bits (getNumberOfWrittenBits s)"
    using s'(3) sum assms by (auto simp: getNumberOfWrittenBits_def padding_bits_def split: if_splits)
  ultimately show ?thesis by blast
qed

lemma do_call_count:
  assumes "m_num_held_bits s \<le> 7" "call_ok c"
  shows "\<exists>s'. do_call c s = Inr s' \<and> m_num_held_bits s' \<le> 7 \<and>
           getNumberOfWrittenBits s' = bits_written [c] (getNumberOfWrittenBits s) \<and>
           (is_align c \<longrightarrow> m_num_held_bits s' = 0)"
proof (cases c)
  case (CallWrite v n)
  then have n: "n \<le> 32" using assms(2) by simp
  from write_out_count [OF assms(1) n, of v]
  obtain s' where s': "write_out v n s = Inr s'"
    "m_num_held_bits s' = (n + m_num_held_bits s) mod 8"
    "length (m_fifo s') = length (m_fifo s) + (n + m_num_held_bits s) div 8" by blast
  have "(n + m_num_held_bits s) mod 8 < 8" by simp
  then have "m_num_held_bits s' \<le> 7" using s'(2) by simp
  moreover have "getNumberOfWrittenBits s' = getNumberOfWrittenBits s + n"
    using mult_div_mod_eq [of 8 "n + m_num_held_bits s"]
    by (simp add: getNumberOfWrittenBits_def s'(2,3))
  ultimately show ?thesis using CallWrite s'(1) by simp
next
  case CallWriteAlignZero
  then show ?thesis using writeAlignZero_count [OF assms(1)]
    by (simp add: getNumberOfWrittenBits_def)
next
  case CallWriteAlignOne
  then show ?thesis using writeAlignOne_count [OF assms(1)]
    by (auto simp: getNumberOfWrittenBits_def)
qed

lemma bits_written_append: "bits_written (cs @ ds) cnt = bits_written ds (bits_written cs cnt)"
  by (induction cs cnt rule: bits_written.induct) simp_all

lemma do_calls_count:
  assumes "m_num_held_bits s \<le> 7" "\<forall>c \<in> set cs. call_ok c"
  shows "\<exists>s'. do_calls cs s = Inr s' \<and> m_num_held_bits s' \<le> 7 \<and>
           getNumberOfWrittenBits s' = bits_written cs (getNumberOfWrittenBits s) \<and>
           (cs \<noteq> [] \<and> is_align (last cs) \<longrightarrow> m_num_held_bits s' = 0)"
  using assms
proof (induction cs arbitrary: s)
  case Nil
  then show ?case by simp
next
  case (Cons c cs)
  from Cons.prems have ok: "call_ok c" and oks: "\<forall>c \<in> set cs. call_ok c" by simp_all
  from do_call_count [OF Cons.prems(1) ok]
  obtain s1 where s1: "do_call c s = Inr s1" "m_num_held_bits s1 \<le> 7"
    "getNumberOfWrittenBits s1 = bits_written [c] (getNumberOfWrittenBits s)"
    "is_align c \<longrightarrow> m_num_held_bits s1 = 0" by blast
  from Cons.IH [OF s1(2) oks]
  obtain s' where s': "do_calls cs s1 = Inr s'" "m_num_held_bits s' \<le> 7"
    "getNumberOfWrittenBits s' = bits_written cs (getNumberOfWrittenBits s1)"
    "cs \<noteq> [] \<and> is_align (last cs) \<longrightarrow> m_num_held_bits s' = 0" by blast
  have "do_calls (c # cs) s = Inr s'" using s1(1) s'(1) by simp
  moreover have "getNumberOfWrittenBits s' = bits_written (c # cs) (getNumberOfWrittenBits s)"
    using s'(3) s1(3) bits_written_append [of "[c]" cs] by simp
  moreover have "is_align (last (c # cs)) \<longrightarrow> m_num_held_bits s' = 0"
  proof (cases "cs = []")
    case True
    then show ?thesis using s1(4) s'(1) by simp
  next
    case False
    then show ?thesis using s'(4) by simp
  qed
  ultimately show ?case using s'(2) by blast
qed

lemma vector_insert_eq:
  "pos \<le> length v \<Longrightarrow> vector_insert v pos xs = take pos v @ xs @ drop pos v"
  by (induction v pos xs rule: vector_insert.induct) simp_all

lemma writeAlignZero_idem: "writeAlignZero (writeAlignZero s) = writeAlignZero s"
  by (simp add: writeAlignZero_def)

lemma writeAlignOne_aligned:
  assumes "m_num_held_bits s = 0"
  shows "writeAlignOne s = Inr s"
  using assms
  by (simp add: writeAlignOne_def getNumBitsUntilByteAligned_def write_out_def Let_def)

section \<open>The reader\<close>

text \<open>
  \<^verbatim>\<open>read\<close> returns the top \<open>n\<close> of the unread bits and leaves the rest: it keeps the
  invariant, takes \<open>in_val s\<close> to its remainder and \<^verbatim>\<open>getNumBitsLeft\<close> down by \<open>n\<close>. The
  two cases are the ones of the source: the held bits suffice, or bytes are loaded.
\<close>

lemma unat_push_byte:
  assumes "sh \<le> 24"
  shows "unat (push_bit sh (ucast (b::8 word)) :: 32 word) = unat b * 2 ^ sh"
proof -
  have "unat b * 2 ^ sh < 256 * 2 ^ sh" using unat_byte_lt [of b] by simp
  also have "(256::nat) * 2 ^ sh \<le> 256 * 2 ^ 24"
    using assms by (intro mult_le_mono2 power_increasing) simp_all
  finally have "unat b * 2 ^ sh < 2 ^ 32" by simp
  then show ?thesis
    by (subst unsigned_push_bit_eq) (simp add: unat_ucast_8_32 push_bit_eq_mult take_bit_nat_eq_self)
qed

lemma or_2_bytes:
  assumes "b < 256"
  shows "a * 256 OR b = a * 256 + (b::nat)"
  using or_add_nat [of b 8 a] assms by simp

lemma or_3_bytes:
  assumes "b < 256" "c < 256"
  shows "(a * 65536 OR b * 256) OR c = a * 65536 + b * 256 + (c::nat)"
proof -
  have "b * 256 < 2 ^ 16" using assms by simp
  from or_add_nat [OF this, of a] have "a * 65536 OR b * 256 = (a * 256 + b) * 256" by (simp add: algebra_simps)
  then show ?thesis using or_2_bytes [OF assms(2), of "a * 256 + b"] by (simp add: algebra_simps)
qed

lemma or_4_bytes:
  assumes "b < 256" "c < 256" "d < 256"
  shows "((a * 16777216 OR b * 65536) OR c * 256) OR d = a * 16777216 + b * 65536 + c * 256 + (d::nat)"
proof -
  have "b * 65536 < 2 ^ 24" using assms by simp
  from or_add_nat [OF this, of a] have "a * 16777216 OR b * 65536 = (a * 256 + b) * 65536" by (simp add: algebra_simps)
  then show ?thesis using or_3_bytes [OF assms(2,3), of "a * 256 + b"] by (simp add: algebra_simps)
qed

lemma take_drop_nths:
  assumes "i + n \<le> length xs"
  shows "take n (drop i xs) = map (\<lambda>j. xs ! j) [i ..< i + n]"
  using assms by (intro nth_equalityI) simp_all

lemma read_switch_spec:
  assumes "c \<le> 3" "idx + c < length fifo"
  shows "\<exists>aw. read_switch c fifo idx = (aw, idx + c + 1, [idx ..< idx + c + 1]) \<and>
               unat aw = be_val (take (c + 1) (drop idx fifo))"
proof -
  have bytes: "take (c + 1) (drop idx fifo) = map (\<lambda>j. fifo ! j) [idx ..< idx + (c + 1)]"
    using assms(2) by (intro take_drop_nths) simp
  from assms(1) consider "c = 0" | "c = 1" | "c = 2" | "c = 3" by linarith
  then show ?thesis
  proof cases
    case 1
    show ?thesis unfolding bytes using 1
      by (simp add: read_switch_def load_or_def be_val_Cons be_val_Nil unat_ucast_8_32)
  next
    case 2
    have u: "[idx ..< idx + 2] = [idx, Suc idx]" by (simp add: upt_rec)
    show ?thesis unfolding bytes using 2
      by (simp add: read_switch_def load_or_def u be_val_Cons be_val_Nil
            unsigned_or_eq unat_push_byte unat_ucast_8_32 or_2_bytes unat_byte_lt)
  next
    case 3
    have u: "[idx ..< idx + 3] = [idx, Suc idx, Suc (Suc idx)]" by (simp add: upt_rec)
    show ?thesis unfolding bytes using 3
      by (simp add: read_switch_def load_or_def u be_val_Cons be_val_Nil
            unsigned_or_eq unat_push_byte unat_ucast_8_32 or_3_bytes unat_byte_lt)
  next
    case 4
    have u: "[idx ..< idx + 4] = [idx, Suc idx, Suc (Suc idx), Suc (Suc (Suc idx))]"
      by (simp add: upt_rec)
    have u': "[idx ..< 4 + idx] = [idx, Suc idx, Suc (Suc idx), Suc (Suc (Suc idx))]"
      using u by (simp add: add.commute)
    show ?thesis unfolding bytes using 4
      by (simp add: read_switch_def load_assign_def load_or_def u u' be_val_Cons be_val_Nil
            unsigned_or_eq unat_push_byte unat_ucast_8_32 or_4_bytes unat_byte_lt)
  qed
qed

lemma and_not_ff:
  fixes x :: "32 word"
  assumes "unat x < 2 ^ (k + 8)"
  shows "unat (x AND NOT (push_bit k 0xff)) = unat x mod 2 ^ k"
proof -
  have ff: "(0xff :: 32 word) = mask 8" by (simp add: mask_eq_exp_minus_1)
  have "take_bit (k + 8) (unat x) = unat x"
    using assms by (simp add: take_bit_nat_eq_self)
  then have "unat (take_bit (k + 8) x) = unat x"
    by (simp add: unsigned_take_bit_eq)
  then have x: "take_bit (k + 8) x = x" by (simp add: word_unat_eq_iff)
  have "x AND NOT (push_bit k (mask 8)) = take_bit k x"
  proof (rule bit_word_eqI)
    fix i assume i: "i < LENGTH(32)"
    have "bit x i \<Longrightarrow> i < k + 8"
      using x by (metis bit_take_bit_iff)
    then show "bit (x AND NOT (push_bit k (mask 8))) i = bit (take_bit k x) i"
      using i by (auto simp: bit_simps)
  qed
  then have e: "x AND NOT (push_bit k 0xff) = take_bit k x" by (simp only: ff)
  show ?thesis
    by (subst e, subst unsigned_take_bit_eq) (simp add: take_bit_eq_mod)
qed

lemma read_held:
  assumes n: "n \<le> m_num_held_bits_in s" and h: "n \<le> 32"
  shows "\<exists>v. read n s = Inr (v, s\<lparr>m_num_held_bits_in := m_num_held_bits_in s - n\<rparr>) \<and>
           unat v = unat (m_held_bits_in s) div 2 ^ (m_num_held_bits_in s - n) mod 2 ^ n"
proof -
  define x :: UInt where "x = drop_bit (m_num_held_bits_in s - n) (ucast (m_held_bits_in s))"
  have ux: "unat x = unat (m_held_bits_in s) div 2 ^ (m_num_held_bits_in s - n)"
    by (simp add: x_def unat_drop_bit_div unat_ucast_8_32)
  have "unat x \<le> unat (m_held_bits_in s)" by (simp add: ux)
  also have "\<dots> < 2 ^ 8" using unat_byte_lt [of "m_held_bits_in s"] by simp
  also have "(2::nat) ^ 8 \<le> 2 ^ (n + 8)" by (rule power_increasing) simp_all
  finally have "unat x < 2 ^ (n + 8)" .
  then have "unat (x AND NOT (push_bit n 0xff)) = unat x mod 2 ^ n" by (rule and_not_ff)
  moreover have "read n s = Inr (x AND NOT (push_bit n 0xff),
                   s\<lparr>m_num_held_bits_in := m_num_held_bits_in s - n\<rparr>)"
    using n h by (simp add: read_def Let_def x_def)
  ultimately show ?thesis by (simp add: ux)
qed

lemma read_load:
  assumes hn: "m_num_held_bits_in s < n" and n32: "n \<le> 32"
    and left: "n \<le> getNumBitsLeft s"
  defines "rem \<equiv> n - m_num_held_bits_in s"
  defines "c \<equiv> (rem - 1) div 8"
  defines "nx \<equiv> (32 - rem) mod 8"
  shows "\<exists>v (aw::UInt). read n s = Inr (v, s\<lparr>m_fifo_idx := m_fifo_idx s + c + 1,
                                     m_num_held_bits_in := nx,
                                     m_held_bits_in := ucast aw\<rparr>) \<and>
           unat aw = be_val (take (c + 1) (drop (m_fifo_idx s) (m_fifo_in s))) \<and>
           unat v = (unat (m_held_bits_in s) mod 2 ^ m_num_held_bits_in s) * 2 ^ rem + unat aw div 2 ^ nx \<and>
           read_accesses n s = [m_fifo_idx s ..< m_fifo_idx s + c + 1] \<and>
           m_fifo_idx s + c + 1 \<le> length (m_fifo_in s) \<and>
           8 * (c + 1) = rem + nx"
proof -
  define hh where "hh = m_num_held_bits_in s"
  have rem1: "1 \<le> rem" and rem32: "rem \<le> 32" using hn n32 by (simp_all add: rem_def)
  have c3: "c \<le> 3" using rem32 by (simp add: c_def)
  have remc: "rem \<le> 8 * (c + 1)" and remc': "8 * c < rem"
    using rem1 by (simp_all add: c_def)
  define r where "r = (rem - 1) mod 8"
  have r7: "r \<le> 7" by (simp add: r_def less_Suc_eq_le [symmetric])
  have "rem - 1 = 8 * c + r" by (simp add: c_def r_def)
  then have reme: "rem = 8 * c + r + 1" using rem1 by simp
  have "32 - rem = (7 - r) + 8 * (3 - c)" using reme rem32 r7 c3 by simp
  then have "nx = (7 - r) mod 8" unfolding nx_def by (simp only: mod_mult_self2)
  then have "nx = 7 - r" by simp
  then have nxe: "8 * (c + 1) = rem + nx" using reme r7 by simp
  have "rem \<le> 8 * (length (m_fifo_in s) - m_fifo_idx s)"
    using left hn by (simp add: getNumBitsLeft_def rem_def)
  with remc' have "c < length (m_fifo_in s) - m_fifo_idx s" by simp
  then have bound: "m_fifo_idx s + c < length (m_fifo_in s)" by simp
  from read_switch_spec [OF c3 bound]
  obtain aw where sw: "read_switch c (m_fifo_in s) (m_fifo_idx s)
                         = (aw, m_fifo_idx s + c + 1, [m_fifo_idx s ..< m_fifo_idx s + c + 1])"
    and aw: "unat aw = be_val (take (c + 1) (drop (m_fifo_idx s) (m_fifo_in s)))" by blast
  define hm :: UInt where "hm = (ucast (m_held_bits_in s) :: UInt) AND NOT (push_bit hh 0xff)"
  define r0 :: UInt where "r0 = push_bit rem hm"
  have rd: "read n s = Inr (r0 OR drop_bit nx aw,
              s\<lparr>m_fifo_idx := m_fifo_idx s + c + 1, m_num_held_bits_in := nx, m_held_bits_in := ucast aw\<rparr>)"
    using hn n32 bound sw
    by (simp add: read_def Let_def drop_bit_eq_div r0_def hm_def hh_def rem_def c_def nx_def)
  have acc: "read_accesses n s = [m_fifo_idx s ..< m_fifo_idx s + c + 1]"
    using hn n32 sw
    by (simp add: read_accesses_def Let_def drop_bit_eq_div rem_def c_def)
  \<comment> \<open>the held part\<close>
  have "unat (ucast (m_held_bits_in s) :: UInt) < 2 ^ (hh + 8)"
  proof -
    have "unat (m_held_bits_in s) < 2 ^ 8" using unat_byte_lt [of "m_held_bits_in s"] by simp
    also have "(2::nat) ^ 8 \<le> 2 ^ (hh + 8)" by (rule power_increasing) simp_all
    finally show ?thesis by (simp add: unat_ucast_8_32)
  qed
  then have m: "unat hm = unat (m_held_bits_in s) mod 2 ^ hh"
    unfolding hm_def by (simp add: and_not_ff unat_ucast_8_32)
  have "unat (m_held_bits_in s) mod 2 ^ hh * 2 ^ rem < 2 ^ hh * 2 ^ rem" by simp
  also have "\<dots> = 2 ^ n" using hn by (simp add: hh_def rem_def flip: power_add)
  also have "\<dots> \<le> (2::nat) ^ 32" by (rule power_increasing) (use n32 in simp_all)
  finally have small: "unat (m_held_bits_in s) mod 2 ^ hh * 2 ^ rem < 2 ^ 32" .
  have r0: "unat r0 = unat (m_held_bits_in s) mod 2 ^ hh * 2 ^ rem"
    unfolding r0_def using small
    by (subst unsigned_push_bit_eq) (simp add: m push_bit_eq_mult take_bit_nat_eq_self)
  \<comment> \<open>the loaded part\<close>
  have "unat aw < 2 ^ (8 * (c + 1))"
    using be_val_lt [of "take (c + 1) (drop (m_fifo_idx s) (m_fifo_in s))"] bound
    by (simp add: aw min_absorb2)
  also have "\<dots> = 2 ^ nx * 2 ^ rem" unfolding nxe by (simp add: power_add)
  finally have lo: "unat aw div 2 ^ nx < 2 ^ rem"
    by (simp add: less_mult_imp_div_less mult.commute)
  have "unat (r0 OR drop_bit nx aw)
          = unat (m_held_bits_in s) mod 2 ^ hh * 2 ^ rem OR unat aw div 2 ^ nx"
    by (simp add: unsigned_or_eq r0 unat_drop_bit_div)
  also have "\<dots> = unat (m_held_bits_in s) mod 2 ^ hh * 2 ^ rem + unat aw div 2 ^ nx"
    using lo by (rule or_add_nat)
  finally have v: "unat (r0 OR drop_bit nx aw)
          = unat (m_held_bits_in s) mod 2 ^ hh * 2 ^ rem + unat aw div 2 ^ nx" .
  have le: "m_fifo_idx s + c + 1 \<le> length (m_fifo_in s)" using bound by simp
  note v' = v [unfolded hh_def]
  from rd aw v' acc le nxe show ?thesis by blast
qed









lemma read_frame: "read n s = Inr (v, s') \<Longrightarrow> m_fifo_in s' = m_fifo_in s"
  by (auto simp: read_def Let_def split: if_splits prod.splits)

lemma read_succeeds:
  assumes n32: "n \<le> 32" and left: "n \<le> getNumBitsLeft s"
  shows "\<exists>v s'. read n s = Inr (v, s') \<and>
           (\<forall>i \<in> set (read_accesses n s). i < length (m_fifo_in s)) \<and>
           m_fifo_idx s' = m_fifo_idx s + length (read_accesses n s)"
proof (cases "n \<le> m_num_held_bits_in s")
  case True
  from read_held [OF True n32]
  obtain v where "read n s = Inr (v, s\<lparr>m_num_held_bits_in := m_num_held_bits_in s - n\<rparr>)"
    by blast
  moreover have "read_accesses n s = []" using True by (simp add: read_accesses_def)
  ultimately show ?thesis by simp
next
  case False
  then have hn: "m_num_held_bits_in s < n" by simp
  define c where "c = (n - m_num_held_bits_in s - 1) div 8"
  from read_load [OF hn n32 left]
  obtain v and aw :: UInt where
    rd: "read n s = Inr (v, s\<lparr>m_fifo_idx := m_fifo_idx s + c + 1,
            m_num_held_bits_in := (32 - (n - m_num_held_bits_in s)) mod 8,
            m_held_bits_in := ucast aw\<rparr>)"
    and acc: "read_accesses n s = [m_fifo_idx s ..< m_fifo_idx s + c + 1]"
    and le: "m_fifo_idx s + c + 1 \<le> length (m_fifo_in s)"
    unfolding c_def by blast
  have "\<forall>i \<in> set (read_accesses n s). i < length (m_fifo_in s)"
    using le by (simp add: acc)
  moreover have "m_fifo_idx s + c + 1 = m_fifo_idx s + length (read_accesses n s)"
    by (simp add: acc)
  ultimately show ?thesis using rd by simp
qed

lemma pseudoRead_spec:
  assumes "n \<le> 32"
  shows "\<exists>v s'. read (min n (getNumBitsLeft s)) s = Inr (v, s') \<and>
           pseudoRead n s = Inr (push_bit (n - min n (getNumBitsLeft s)) v, s)"
proof -
  have "min n (getNumBitsLeft s) \<le> 32" "min n (getNumBitsLeft s) \<le> getNumBitsLeft s"
    using assms by simp_all
  from read_succeeds [OF this]
  obtain v s' where rd: "read (min n (getNumBitsLeft s)) s = Inr (v, s')" by blast
  have "m_fifo_in s' = m_fifo_in s" using rd by (rule read_frame)
  then have "s'\<lparr>m_fifo_idx := m_fifo_idx s, m_held_bits_in := m_held_bits_in s,
                m_num_held_bits_in := m_num_held_bits_in s\<rparr> = s"
    by simp
  then have "pseudoRead n s = Inr (push_bit (n - min n (getNumBitsLeft s)) v, s)"
    using rd by (simp add: pseudoRead_def Let_def)
  with rd show ?thesis by blast
qed



section \<open>Writing and reading back\<close>













text \<open>Writing 32-bit zero words from an aligned buffer of zero bytes: four more zero bytes each.\<close>

lemma write_out_zero_word:
  "write_out 0 32 \<lparr>m_fifo = replicate j 0, m_num_held_bits = 0, m_held_bits = 0\<rparr>
     = Inr \<lparr>m_fifo = replicate (j + 4) 0, m_num_held_bits = 0, m_held_bits = 0\<rparr>"
proof -
  have "replicate j (0::uint8_t) @ replicate 4 0 = replicate (j + 4) 0"
    by (simp only: replicate_add)
  moreover have "replicate 4 (0::uint8_t) = [0, 0, 0, 0]"
    by (simp add: numeral_eq_Suc)
  ultimately have "replicate j (0::uint8_t) @ [0, 0, 0, 0] = replicate (j + 4) 0"
    by (simp only:)
  then show ?thesis
    by (simp add: write_out_def Let_def write_switch_def push_back_def drop_bit_eq_div)
qed

lemma do_calls_zero_words:
  "do_calls (replicate k (CallWrite 0 32))
            \<lparr>m_fifo = replicate j 0, m_num_held_bits = 0, m_held_bits = 0\<rparr>
     = Inr \<lparr>m_fifo = replicate (j + 4 * k) 0, m_num_held_bits = 0, m_held_bits = 0\<rparr>"
proof (induction k arbitrary: j)
  case 0
  then show ?case by simp
next
  case (Suc k)
  have "j + 4 + 4 * k = j + 4 * Suc k" by simp
  with Suc [of "j + 4"] show ?case
    by (simp only: replicate_Suc do_calls.simps do_call.simps write_out_zero_word sum.case)
qed

lemma bits_written_words: "bits_written (replicate k (CallWrite v 32)) cnt = cnt + 32 * k"
  by (induction k arbitrary: cnt) simp_all

section \<open>The claims\<close>



text \<open>
  C2 (lookahead non-mutation), as the code has it. For every reader state and every
  width of at most 32, \<^verbatim>\<open>pseudoRead\<close> succeeds and leaves the reader exactly as it was;
  and when the width is at most the number of bits left, a \<^verbatim>\<open>read\<close> of the same width
  performed next (on that unchanged state, so it ends where a single read ends) succeeds
  and returns the value \<^verbatim>\<open>pseudoRead\<close> returned.

  Without the bound on the width the second half fails: over the one-byte buffer 0xA5,
  \<^verbatim>\<open>pseudoRead(16)\<close> returns 0xA500, and \<^verbatim>\<open>read(16)\<close> fails its assertion
  \<^verbatim>\<open>m_fifo_idx + num_bytes_to_load < m_fifo->size()\<close>.
\<close>

theorem pseudoRead_then_read:
  assumes "n \<le> 32"
  shows "\<exists>v. pseudoRead n s = Inr (v, s) \<and>
           (n \<le> getNumBitsLeft s \<longrightarrow> (\<exists>s'. read n s = Inr (v, s')))"
proof -
  from pseudoRead_spec [OF assms]
  obtain v s' where rd: "read (min n (getNumBitsLeft s)) s = Inr (v, s')"
    and pr: "pseudoRead n s = Inr (push_bit (n - min n (getNumBitsLeft s)) v, s)" by blast
  have "read n s = Inr (push_bit (n - min n (getNumBitsLeft s)) v, s')" if "n \<le> getNumBitsLeft s"
    using rd that by (simp add: min_absorb1)
  with pr show ?thesis by blast
qed

theorem pseudoRead_then_read_witness:
  "pseudoRead 12 (new_TComInputBitstream [0xA5, 0x3C])
     = Inr (0xA53, new_TComInputBitstream [0xA5, 0x3C])
   \<and> read 12 (new_TComInputBitstream [0xA5, 0x3C])
     = Inr (0xA53, \<lparr>m_fifo_in = [0xA5, 0x3C], m_fifo_idx = 2,
                     m_num_held_bits_in = 4, m_held_bits_in = 0x3C\<rparr>)"
proof -
  have n: "(12::nat) \<le> 32" by simp
  have p: "pseudoRead 12 (new_TComInputBitstream [0xA5, 0x3C])
             = Inr (0xA53, new_TComInputBitstream [0xA5, 0x3C])"
    by code_simp
  have r: "read 12 (new_TComInputBitstream [0xA5, 0x3C])
     = Inr (0xA53, \<lparr>m_fifo_in = [0xA5, 0x3C], m_fifo_idx = 2,
                     m_num_held_bits_in = 4, m_held_bits_in = 0x3C\<rparr>)"
    by code_simp
  from pseudoRead_then_read [OF n, of "new_TComInputBitstream [0xA5, 0x3C]"] p r
  show ?thesis by simp
qed

theorem pseudoRead_then_read_counterexample:
  "pseudoRead 16 (new_TComInputBitstream [0xA5]) = Inr (0xA500, new_TComInputBitstream [0xA5])
   \<and> read 16 (new_TComInputBitstream [0xA5]) = Inl AssertFifoBounds"
  by code_simp

text \<open>
  C3 (splice correctness). For writers A and B where B's written bit count is a multiple
  of 8, and a byte position p of at most the length of A's buffer, \<^verbatim>\<open>A.insertAt(B, p)\<close>
  succeeds, leaves B as it is, and makes A's byte buffer the first p bytes of A, then B's
  bytes, then the rest of A: every byte of A at or after p moves later by the length of
  B's buffer. (The alignment of A itself is not needed.)
\<close>

theorem insertAt_splice:
  assumes "getNumberOfWrittenBits B mod 8 = 0" and "p \<le> length (m_fifo A)"
  shows "\<exists>A'. insertAt A B p = Inr (A', B) \<and>
           getByteStream A' = take p (getByteStream A) @ getByteStream B @ drop p (getByteStream A) \<and>
           (\<forall>i. p \<le> i \<and> i < length (getByteStream A) \<longrightarrow>
                 getByteStream A' ! (i + length (getByteStream B)) = getByteStream A ! i)"
proof -
  let ?A' = "A\<lparr>m_fifo := vector_insert (m_fifo A) p (m_fifo B)\<rparr>"
  have r: "insertAt A B p = Inr (?A', B)"
    using assms by (simp add: insertAt_def)
  have b: "getByteStream ?A' = take p (getByteStream A) @ getByteStream B @ drop p (getByteStream A)"
    using assms(2) by (simp add: getByteStream_def vector_insert_eq)
  have "getByteStream ?A' ! (i + length (getByteStream B)) = getByteStream A ! i"
    if "p \<le> i" "i < length (getByteStream A)" for i
  proof -
    have "(take p (m_fifo A) @ m_fifo B @ drop p (m_fifo A)) ! (i + length (m_fifo B))
            = (m_fifo B @ drop p (m_fifo A)) ! (i + length (m_fifo B) - p)"
      using that assms(2) by (simp add: nth_append)
    also have "i + length (m_fifo B) - p = length (m_fifo B) + (i - p)"
      using that by simp
    also have "(m_fifo B @ drop p (m_fifo A)) ! (length (m_fifo B) + (i - p)) = drop p (m_fifo A) ! (i - p)"
      by (rule nth_append_length_plus)
    also have "\<dots> = m_fifo A ! i" using that assms(2) by (simp add: getByteStream_def)
    finally show ?thesis using b by (simp add: getByteStream_def)
  qed
  with r b show ?thesis by blast
qed

theorem insertAt_splice_witness:
  "insertAt \<lparr>m_fifo = [1, 2, 3], m_num_held_bits = 0, m_held_bits = 0\<rparr>
            \<lparr>m_fifo = [9, 8], m_num_held_bits = 0, m_held_bits = 0\<rparr> 1
     = Inr (\<lparr>m_fifo = [1, 9, 8, 2, 3], m_num_held_bits = 0, m_held_bits = 0\<rparr>,
            \<lparr>m_fifo = [9, 8], m_num_held_bits = 0, m_held_bits = 0\<rparr>)"
proof -
  let ?A = "\<lparr>m_fifo = [1, 2, 3], m_num_held_bits = 0, m_held_bits = 0\<rparr>"
  let ?B = "\<lparr>m_fifo = [9, 8], m_num_held_bits = 0, m_held_bits = 0\<rparr>"
  have al: "getNumberOfWrittenBits ?B mod 8 = 0" by (simp add: getNumberOfWrittenBits_def)
  have p: "1 \<le> length (m_fifo ?A)" by simp
  from insertAt_splice [OF al p]
  obtain A' where r: "insertAt ?A ?B 1 = Inr (A', ?B)"
    and b: "getByteStream A' = take 1 (getByteStream ?A) @ getByteStream ?B @ drop 1 (getByteStream ?A)"
    by blast
  have "insertAt ?A ?B 1 = Inr (?A\<lparr>m_fifo := vector_insert (m_fifo ?A) 1 (m_fifo ?B)\<rparr>, ?B)"
    using al by (simp add: insertAt_def)
  with r have "A' = ?A\<lparr>m_fifo := m_fifo A'\<rparr>" by simp
  with b have "A' = \<lparr>m_fifo = [1, 9, 8, 2, 3], m_num_held_bits = 0, m_held_bits = 0\<rparr>"
    by (simp add: getByteStream_def)
  with r show ?thesis by simp
qed

text \<open>
  C4 (bit-count conservation), as the code has it. For every sequence of \<^verbatim>\<open>write\<close>,
  \<^verbatim>\<open>writeAlignZero\<close> and \<^verbatim>\<open>writeAlignOne\<close> calls, each write with a width of at most 32 and
  a value confined to its width, run from the constructed or from a cleared writer, and
  writing fewer than \<open>8 * 2 ^ 32\<close> bits in all, alignment padding included (so that the
  byte count fits the \<^verbatim>\<open>unsigned\<close> that \<^verbatim>\<open>getByteStreamLength\<close> returns): every call
  succeeds and the number of bits written, padding included, is
  \<^verbatim>\<open>8 * getByteStreamLength() + m_num_held_bits\<close>, with at most 7 held bits; after a
  final align operation it is \<^verbatim>\<open>8 * getByteStreamLength()\<close>.

  Without the bound the equation fails: after \<open>2 ^ 30\<close> calls \<^verbatim>\<open>write(0, 32)\<close> the buffer
  holds \<open>2 ^ 32\<close> bytes, \<open>2 ^ 35\<close> bits are written, and \<^verbatim>\<open>getByteStreamLength\<close> returns 0.
\<close>

theorem bit_count_conservation:
  assumes "s0 = new_TComOutputBitstream \<or> s0 = clear s" and "\<forall>c \<in> set cs. call_ok c"
    and "bits_written cs 0 < 8 * 2 ^ 32"
  shows "\<exists>s'. do_calls cs s0 = Inr s' \<and>
           bits_written cs 0 = 8 * getByteStreamLength s' + m_num_held_bits s' \<and>
           m_num_held_bits s' \<le> 7 \<and>
           (cs \<noteq> [] \<and> is_align (last cs) \<longrightarrow> bits_written cs 0 = 8 * getByteStreamLength s')"
proof -
  from assms(1) have z: "m_num_held_bits s0 = 0" "getNumberOfWrittenBits s0 = 0"
    by (auto simp: new_TComOutputBitstream_def clear_def getNumberOfWrittenBits_def)
  then have "m_num_held_bits s0 \<le> 7" by simp
  from do_calls_count [OF this assms(2)] z(2)
  obtain s' where s': "do_calls cs s0 = Inr s'" "m_num_held_bits s' \<le> 7"
    "getNumberOfWrittenBits s' = bits_written cs 0"
    "cs \<noteq> [] \<and> is_align (last cs) \<longrightarrow> m_num_held_bits s' = 0" by auto
  have "8 * length (m_fifo s') < 8 * 2 ^ 32"
    using s'(3) assms(3) by (simp add: getNumberOfWrittenBits_def)
  then have "length (m_fifo s') < 2 ^ 32" by simp
  then have "getByteStreamLength s' = length (m_fifo s')"
    by (simp add: getByteStreamLength_def)
  then have "bits_written cs 0 = 8 * getByteStreamLength s' + m_num_held_bits s'"
    using s'(3) by (simp add: getNumberOfWrittenBits_def)
  then show ?thesis using s'(1,2,4) by auto
qed

theorem bit_count_conservation_witness:
  "do_calls [CallWrite 5 3, CallWriteAlignOne, CallWrite 0x1CA 9, CallWriteAlignZero]
            new_TComOutputBitstream
     = Inr \<lparr>m_fifo = [0xBF, 0xE5, 0], m_num_held_bits = 0, m_held_bits = 0\<rparr>
   \<and> bits_written [CallWrite 5 3, CallWriteAlignOne, CallWrite 0x1CA 9, CallWriteAlignZero] 0 = 24
   \<and> getByteStreamLength \<lparr>m_fifo = [0xBF, 0xE5, 0], m_num_held_bits = 0, m_held_bits = 0\<rparr> = 3"
proof -
  let ?cs = "[CallWrite 5 3, CallWriteAlignOne, CallWrite 0x1CA 9, CallWriteAlignZero]"
  have ok: "\<forall>c \<in> set ?cs. call_ok c" by simp
  have bw: "bits_written ?cs 0 = 24" by (simp add: padding_bits_def)
  then have small: "bits_written ?cs 0 < 8 * 2 ^ 32" by simp
  have run: "do_calls ?cs new_TComOutputBitstream
               = Inr \<lparr>m_fifo = [0xBF, 0xE5, 0], m_num_held_bits = 0, m_held_bits = 0\<rparr>"
    by code_simp
  from bit_count_conservation [OF disjI1 [OF refl] ok small]
  obtain s' where "do_calls ?cs new_TComOutputBitstream = Inr s'"
    "bits_written ?cs 0 = 8 * getByteStreamLength s' + m_num_held_bits s'" by blast
  with run bw show ?thesis by auto
qed

theorem bit_count_conservation_counterexample:
  "call_ok (CallWrite 0 32)
   \<and> do_calls (replicate (2 ^ 30) (CallWrite 0 32)) new_TComOutputBitstream
     = Inr \<lparr>m_fifo = replicate (2 ^ 32) 0, m_num_held_bits = 0, m_held_bits = 0\<rparr>
   \<and> bits_written (replicate (2 ^ 30) (CallWrite 0 32)) 0 = 2 ^ 35
   \<and> 8 * getByteStreamLength \<lparr>m_fifo = replicate (2 ^ 32) 0, m_num_held_bits = 0, m_held_bits = 0\<rparr>
       + m_num_held_bits \<lparr>m_fifo = replicate (2 ^ 32) 0, m_num_held_bits = 0, m_held_bits = 0\<rparr>
     = 0"
proof -
  have e: "0 + 4 * (2::nat) ^ 30 = 2 ^ 32" "0 + 32 * (2::nat) ^ 30 = 2 ^ 35" by simp_all
  have n: "new_TComOutputBitstream
             = \<lparr>m_fifo = replicate 0 0, m_num_held_bits = 0, m_held_bits = 0\<rparr>"
    by (simp add: new_TComOutputBitstream_def clear_def)
  have 1: "call_ok (CallWrite 0 32)" by simp
  have 2: "do_calls (replicate (2 ^ 30) (CallWrite 0 32)) new_TComOutputBitstream
     = Inr \<lparr>m_fifo = replicate (2 ^ 32) 0, m_num_held_bits = 0, m_held_bits = 0\<rparr>"
    using do_calls_zero_words [of "2 ^ 30" 0] by (simp only: n e)
  have 3: "bits_written (replicate (2 ^ 30) (CallWrite 0 32)) 0 = 2 ^ 35"
    using bits_written_words [of "2 ^ 30" 0 0] by (simp only: e)
  have "length (replicate ((2::nat) ^ 32) (0::uint8_t)) mod 2 ^ 32 = 0"
    by (simp only: length_replicate mod_self)
  then have 4: "8 * getByteStreamLength \<lparr>m_fifo = replicate (2 ^ 32) 0, m_num_held_bits = 0, m_held_bits = 0\<rparr>
       + m_num_held_bits \<lparr>m_fifo = replicate (2 ^ 32) 0, m_num_held_bits = 0, m_held_bits = 0\<rparr>
     = 0"
    by (simp only: getByteStreamLength_def TComOutputBitstream.simps mult_0_right add_0)
  from 1 2 3 4 show ?thesis by (intro conjI)
qed



text \<open>
  C6 (alignment idempotence). For every writer state (with its at most 7 held bits),
  \<^verbatim>\<open>writeAlignZero\<close> called twice gives the state that one call gives, and
  \<^verbatim>\<open>writeAlignOne\<close> succeeds and a second \<^verbatim>\<open>writeAlignOne\<close> returns the state of the first
  unchanged, buffer and held bits alike.
\<close>

theorem align_idempotent:
  assumes "m_num_held_bits s \<le> 7"
  shows "writeAlignZero (writeAlignZero s) = writeAlignZero s \<and>
         (\<exists>s'. writeAlignOne s = Inr s' \<and> writeAlignOne s' = Inr s')"
proof -
  from writeAlignOne_count [OF assms]
  obtain s' where "writeAlignOne s = Inr s'" "m_num_held_bits s' = 0" by blast
  then show ?thesis using writeAlignOne_aligned [of s'] writeAlignZero_idem [of s] by blast
qed

theorem align_idempotent_witness:
  "writeAlignZero (writeAlignZero \<lparr>m_fifo = [1], m_num_held_bits = 3, m_held_bits = 0xA0\<rparr>)
     = \<lparr>m_fifo = [1, 0xA0], m_num_held_bits = 0, m_held_bits = 0\<rparr>
   \<and> writeAlignOne \<lparr>m_fifo = [1], m_num_held_bits = 3, m_held_bits = 0xA0\<rparr>
     = Inr \<lparr>m_fifo = [1, 0xBF], m_num_held_bits = 0, m_held_bits = 0\<rparr>
   \<and> writeAlignOne \<lparr>m_fifo = [1, 0xBF], m_num_held_bits = 0, m_held_bits = 0\<rparr>
     = Inr \<lparr>m_fifo = [1, 0xBF], m_num_held_bits = 0, m_held_bits = 0\<rparr>"
proof -
  let ?s = "\<lparr>m_fifo = [1], m_num_held_bits = 3, m_held_bits = 0xA0\<rparr>"
  have h: "m_num_held_bits ?s \<le> 7" by simp
  have z: "writeAlignZero ?s = \<lparr>m_fifo = [1, 0xA0], m_num_held_bits = 0, m_held_bits = 0\<rparr>"
    by code_simp
  have o: "writeAlignOne ?s = Inr \<lparr>m_fifo = [1, 0xBF], m_num_held_bits = 0, m_held_bits = 0\<rparr>"
    by code_simp
  from align_idempotent [OF h] z o show ?thesis by auto
qed

text \<open>
  C7 (read bounds safety). For every reader state and every width of at most 32 that is
  at most \<^verbatim>\<open>m_num_held_bits + 8 * (m_fifo->size() - m_fifo_idx)\<close>, \<^verbatim>\<open>read\<close> succeeds (neither
  assertion fails), every index of \<^verbatim>\<open>m_fifo\<close> it accesses is below the length of the
  buffer, and the cursor advances by exactly the number of bytes accessed.
\<close>

theorem read_bounds_safety:
  assumes "n \<le> 32"
    and "n \<le> m_num_held_bits_in s + 8 * (length (m_fifo_in s) - m_fifo_idx s)"
  shows "\<exists>v s'. read n s = Inr (v, s') \<and>
           (\<forall>i \<in> set (read_accesses n s). i < length (m_fifo_in s)) \<and>
           m_fifo_idx s' = m_fifo_idx s + length (read_accesses n s)"
proof -
  have "n \<le> getNumBitsLeft s" using assms(2) by (simp add: getNumBitsLeft_def)
  with assms(1) show ?thesis by (rule read_succeeds)
qed

theorem read_bounds_safety_witness:
  "read 32 \<lparr>m_fifo_in = [1, 2, 3, 4, 5], m_fifo_idx = 1,
               m_num_held_bits_in = 3, m_held_bits_in = 1\<rparr>
     = Inr (0x20406080, \<lparr>m_fifo_in = [1, 2, 3, 4, 5], m_fifo_idx = 5,
                          m_num_held_bits_in = 3, m_held_bits_in = 5\<rparr>)
   \<and> read_accesses 32 \<lparr>m_fifo_in = [1, 2, 3, 4, 5], m_fifo_idx = 1,
               m_num_held_bits_in = 3, m_held_bits_in = 1\<rparr> = [1, 2, 3, 4]"
proof -
  let ?s = "\<lparr>m_fifo_in = [1, 2, 3, 4, 5], m_fifo_idx = 1,
               m_num_held_bits_in = 3, m_held_bits_in = 1\<rparr>"
  have n: "(32::nat) \<le> 32" by simp
  have l: "32 \<le> m_num_held_bits_in ?s + 8 * (length (m_fifo_in ?s) - m_fifo_idx ?s)" by simp
  have r: "read 32 ?s = Inr (0x20406080, \<lparr>m_fifo_in = [1, 2, 3, 4, 5], m_fifo_idx = 5,
                          m_num_held_bits_in = 3, m_held_bits_in = 5\<rparr>)"
    by code_simp
  have a: "read_accesses 32 ?s = [1, 2, 3, 4]" by code_simp
  from read_bounds_safety [OF n l] r a show ?thesis by simp
qed

text \<open>
  C8 (concrete scenario, writer and reader). From the constructed writer,
  \<^verbatim>\<open>write(0b101, 3)\<close>, \<^verbatim>\<open>write(0b11001010, 8)\<close> and \<^verbatim>\<open>writeAlignZero()\<close> leave exactly the
  two bytes 10111001 01000000; a reader over these bytes returns 0b101 for
  \<^verbatim>\<open>read(3)\<close> and 0b11001010 for \<^verbatim>\<open>read(8)\<close>, and then has 5 bits left, which are the
  zero padding: \<^verbatim>\<open>read(5)\<close> returns 0 and leaves nothing.
\<close>

theorem concrete_scenario:
  "write_out 5 3 new_TComOutputBitstream
     = Inr \<lparr>m_fifo = [], m_num_held_bits = 3, m_held_bits = 0xA0\<rparr>
   \<and> write_out 0xCA 8 \<lparr>m_fifo = [], m_num_held_bits = 3, m_held_bits = 0xA0\<rparr>
     = Inr \<lparr>m_fifo = [0xB9], m_num_held_bits = 3, m_held_bits = 0x40\<rparr>
   \<and> getByteStream (writeAlignZero \<lparr>m_fifo = [0xB9], m_num_held_bits = 3, m_held_bits = 0x40\<rparr>)
     = [0xB9, 0x40]
   \<and> read 3 (new_TComInputBitstream [0xB9, 0x40])
     = Inr (5, \<lparr>m_fifo_in = [0xB9, 0x40], m_fifo_idx = 1,
                 m_num_held_bits_in = 5, m_held_bits_in = 0xB9\<rparr>)
   \<and> read 8 \<lparr>m_fifo_in = [0xB9, 0x40], m_fifo_idx = 1,
              m_num_held_bits_in = 5, m_held_bits_in = 0xB9\<rparr>
     = Inr (0xCA, \<lparr>m_fifo_in = [0xB9, 0x40], m_fifo_idx = 2,
                    m_num_held_bits_in = 5, m_held_bits_in = 0x40\<rparr>)
   \<and> getNumBitsLeft \<lparr>m_fifo_in = [0xB9, 0x40], m_fifo_idx = 2,
                       m_num_held_bits_in = 5, m_held_bits_in = 0x40\<rparr> = 5
   \<and> read 5 \<lparr>m_fifo_in = [0xB9, 0x40], m_fifo_idx = 2,
              m_num_held_bits_in = 5, m_held_bits_in = 0x40\<rparr>
     = Inr (0, \<lparr>m_fifo_in = [0xB9, 0x40], m_fifo_idx = 2,
                 m_num_held_bits_in = 0, m_held_bits_in = 0x40\<rparr>)"
  by code_simp

text \<open>
  C9 (boundary scenario). From the constructed writer, \<^verbatim>\<open>write(1, 1)\<close> followed by
  \<^verbatim>\<open>writeAlignOne()\<close> leaves a buffer of exactly one byte, 11111111, and no held bits.
\<close>

theorem boundary_scenario:
  "write_out 1 1 new_TComOutputBitstream
     = Inr \<lparr>m_fifo = [], m_num_held_bits = 1, m_held_bits = 0x80\<rparr>
   \<and> writeAlignOne \<lparr>m_fifo = [], m_num_held_bits = 1, m_held_bits = 0x80\<rparr>
     = Inr \<lparr>m_fifo = [0xFF], m_num_held_bits = 0, m_held_bits = 0\<rparr>"
  by code_simp

text \<open>
  C10 (frame of \<^verbatim>\<open>insertAt\<close>). For every call \<^verbatim>\<open>A.insertAt(B, p)\<close> with p at most the
  length of A's buffer: whenever the call returns, B is as it was (buffer, held bits and
  their count) and so are A's held bits and their count, only A's buffer may differ; and
  the call does return when B's written bit count is a multiple of 8.
\<close>

theorem insertAt_frame:
  assumes "p \<le> length (m_fifo A)"
  shows "(\<forall>A' B'. insertAt A B p = Inr (A', B') \<longrightarrow>
            B' = B \<and> m_held_bits A' = m_held_bits A \<and> m_num_held_bits A' = m_num_held_bits A)
         \<and> (getNumberOfWrittenBits B mod 8 = 0 \<longrightarrow> (\<exists>A'. insertAt A B p = Inr (A', B)))"
  using assms by (auto simp: insertAt_def Let_def split: if_splits)

theorem insertAt_frame_witness:
  "insertAt \<lparr>m_fifo = [1, 2, 3], m_num_held_bits = 2, m_held_bits = 0xC0\<rparr>
            \<lparr>m_fifo = [9, 8], m_num_held_bits = 0, m_held_bits = 0\<rparr> 3
     = Inr (\<lparr>m_fifo = [1, 2, 3, 9, 8], m_num_held_bits = 2, m_held_bits = 0xC0\<rparr>,
            \<lparr>m_fifo = [9, 8], m_num_held_bits = 0, m_held_bits = 0\<rparr>)
   \<and> m_held_bits \<lparr>m_fifo = [1, 2, 3, 9, 8], m_num_held_bits = 2, m_held_bits = 0xC0\<rparr>
     = m_held_bits \<lparr>m_fifo = [1, 2, 3], m_num_held_bits = 2, m_held_bits = 0xC0\<rparr>"
proof -
  let ?A = "\<lparr>m_fifo = [1, 2, 3], m_num_held_bits = 2, m_held_bits = 0xC0\<rparr>"
  let ?B = "\<lparr>m_fifo = [9, 8], m_num_held_bits = 0, m_held_bits = 0\<rparr>"
  have p: "3 \<le> length (m_fifo ?A)" by simp
  have r: "insertAt ?A ?B 3
             = Inr (\<lparr>m_fifo = [1, 2, 3, 9, 8], m_num_held_bits = 2, m_held_bits = 0xC0\<rparr>, ?B)"
    by code_simp
  from insertAt_frame [OF p, of ?B] r show ?thesis by simp
qed

end
